theory Spec2Isabelle
  imports Main
begin

section \<open>Values shared by every draft of the package\<close>

text \<open>
  The repository holds three drafts of \<^verbatim>\<open>Either[L, R]\<close>: the sequential one
  (first part of \<^verbatim>\<open>play/arshaler_either_test.go\<close>), the one with two pipes written inline
  (\<^verbatim>\<open>play/either_teeing\<close>) and the one built on \<^verbatim>\<open>TeeDecoder\<close> (last part of
  \<^verbatim>\<open>play/arshaler_either_test.go\<close>). The struct, its constructors and accessors and
  \<^verbatim>\<open>MarshalJSONTo\<close> are the same text in all three.

  A Go call returns, panics, or never returns because it waits for a lock that is never
  released; \<open>res\<close> keeps the three apart.
\<close>

datatype panic_val =
    PanicVal string
  | NilDereference

datatype 'a res = Ret 'a | Panic panic_val | Blocks

text \<open>
  Error values. The sentinels of the package (\<^verbatim>\<open>errStopped\<close>, \<^verbatim>\<open>errFailedEarly\<close>,
  \<^verbatim>\<open>errBadDec\<close>), \<^verbatim>\<open>*panicErr\<close>, the sentinels of package \<^verbatim>\<open>io\<close> that the code meets,
  the write error in which the token encoder wraps a failed flush, and the value built by
  \<^verbatim>\<open>fmt.Errorf\<close> with two \<^verbatim>\<open>%w\<close> verbs in \<^verbatim>\<open>eitherErr\<close>. \<open>ErrOther\<close> stands for any
  error produced by the binder or the token reader, identified by its message.
\<close>

datatype error =
    ErrStopped
  | ErrFailedEarly
  | ErrBadDec string
  | ErrClosedPipe
  | ErrEOF
  | ErrOther string
  | PanicErr panic_val
  | ErrWrite error
  | ErrEither error error

fun show_panic :: "panic_val \<Rightarrow> string" where
  "show_panic (PanicVal s) = s"
| "show_panic NilDereference = ''runtime error: invalid memory address or nil pointer dereference''"

text \<open>\<^verbatim>\<open>err.Error()\<close>: the message of an error value.\<close>

fun Error :: "error \<Rightarrow> string" where
  "Error ErrStopped = ''stopped''"
| "Error ErrFailedEarly = ''failed early''"
| "Error (ErrBadDec k) = ''bad decoder: decoder peeked a non starting token '' @ k"
| "Error ErrClosedPipe = ''io: read/write on closed pipe''"
| "Error ErrEOF = ''EOF''"
| "Error (ErrOther m) = m"
| "Error (PanicErr v) = ''panicked: '' @ show_panic v"
| "Error (ErrWrite e) = ''jsontext: write error: '' @ Error e"
| "Error (ErrEither a b) =
     ''Either[L, R]: unmarshal failed for both L and R: l = ('' @ Error a @ ''), r = ('' @ Error b @ '')''"

text \<open>The errors an error value wraps, in order (\<^verbatim>\<open>Unwrap() error\<close> or \<^verbatim>\<open>Unwrap() []error\<close>).\<close>

fun Unwrap :: "error \<Rightarrow> error list" where
  "Unwrap (ErrWrite e) = [e]"
| "Unwrap (ErrEither a b) = [a, b]"
| "Unwrap _ = []"

text \<open>\<^verbatim>\<open>errors.Is(err, target)\<close>: \<open>target\<close> occurs in the tree of wrapped errors.\<close>

fun errors_Is :: "error \<Rightarrow> error \<Rightarrow> bool" where
  "errors_Is (ErrWrite e) t = (ErrWrite e = t \<or> errors_Is e t)"
| "errors_Is (ErrEither a b) t = (ErrEither a b = t \<or> errors_Is a t \<or> errors_Is b t)"
| "errors_Is e t = (e = t)"

text \<open>\<^verbatim>\<open>errors.As(err, &pe)\<close> with \<^verbatim>\<open>pe *panicErr\<close>: the first \<^verbatim>\<open>*panicErr\<close> in the tree.\<close>

fun as_panicErr :: "error \<Rightarrow> panic_val option" where
  "as_panicErr (PanicErr v) = Some v"
| "as_panicErr (ErrWrite e) = as_panicErr e"
| "as_panicErr (ErrEither a b) = (case as_panicErr a of Some v \<Rightarrow> Some v | None \<Rightarrow> as_panicErr b)"
| "as_panicErr _ = None"

section \<open>The Either struct\<close>

text \<open>
  \<^verbatim>\<open>type Either[L, R any] struct { isRight bool; l L; r R }\<close>. The fields \<^verbatim>\<open>l\<close> and \<^verbatim>\<open>r\<close>
  are \<open>el\<close> and \<open>er\<close> here. The zero value of a Go type, \<^verbatim>\<open>*new(T)\<close>, is \<open>default\<close>.
\<close>

record ('l, 'r) Either =
  isRight :: bool
  el :: 'l
  er :: 'r

instantiation bool :: default
begin
definition default_bool :: bool where "default_bool = False"
instance ..
end

instantiation int :: default
begin
definition default_int :: int where "default_int = 0"
instance ..
end

instantiation list :: (type) default
begin
definition default_list :: "'a list" where "default_list = []"
instance ..
end

text \<open>The zero value of the struct: every field at its zero value.\<close>

definition zero_Either :: "('l::default, 'r::default) Either" where
  "zero_Either = \<lparr>isRight = False, el = default, er = default\<rparr>"

definition Left :: "'l \<Rightarrow> ('l, 'r::default) Either" where
  "Left l = \<lparr>isRight = False, el = l, er = default\<rparr>"

definition Right :: "'r \<Rightarrow> ('l::default, 'r) Either" where
  "Right r = \<lparr>isRight = True, el = default, er = r\<rparr>"

definition IsLeft :: "('l, 'r) Either \<Rightarrow> bool" where
  "IsLeft e = (\<not> isRight e)"

definition IsRight :: "('l, 'r) Either \<Rightarrow> bool" where
  "IsRight e = isRight e"

definition Left_of :: "('l, 'r) Either \<Rightarrow> 'l" where
  "Left_of e = el e"

definition Right_of :: "('l, 'r) Either \<Rightarrow> 'r" where
  "Right_of e = er e"

definition Unpack :: "('l, 'r) Either \<Rightarrow> 'l \<times> 'r" where
  "Unpack e = (el e, er e)"

definition MapLeft :: "('l, 'r::default) Either \<Rightarrow> ('l \<Rightarrow> 'l2::default) \<Rightarrow> ('l2, 'r) Either" where
  "MapLeft e mapper = (if IsLeft e then Left (mapper (Left_of e)) else Right (Right_of e))"

definition MapRight :: "('l::default, 'r) Either \<Rightarrow> ('r \<Rightarrow> 'r2::default) \<Rightarrow> ('l, 'r2) Either" where
  "MapRight e mapper = (if IsRight e then Right (mapper (Right_of e)) else Left (Left_of e))"

text \<open>
  \<^verbatim>\<open>MarshalJSONTo\<close>. \<^verbatim>\<open>json.MarshalEncode(enc, v)\<close> belongs to the binder; it is the parameter
  \<open>encL\<close> at type \<open>'l\<close> and \<open>encR\<close> at type \<open>'r\<close>, taking the encoder and the value to the
  encoder afterwards and the error returned.
\<close>

definition MarshalJSONTo ::
  "('enc \<Rightarrow> 'l \<Rightarrow> 'enc \<times> error option) \<Rightarrow> ('enc \<Rightarrow> 'r \<Rightarrow> 'enc \<times> error option) \<Rightarrow>
   ('l, 'r) Either \<Rightarrow> 'enc \<Rightarrow> 'enc \<times> error option" where
  "MarshalJSONTo encL encR e enc =
     (if IsLeft e then encL enc (Left_of e) else encR enc (Right_of e))"

section \<open>The token reader\<close>

text \<open>
  \<^verbatim>\<open>jsontext.Decoder\<close> is a collaborator; the code uses \<^verbatim>\<open>PeekKind\<close>, \<^verbatim>\<open>ReadToken\<close>,
  \<^verbatim>\<open>ReadValue\<close> and \<^verbatim>\<open>StackDepth\<close>. It is modelled by what it will deliver: the tokens
  still to come, a fault where the input is malformed or truncated, a crash where the
  underlying reader panics (\<^verbatim>\<open>panicReader\<close> of the tests), and the stack of composites
  that are open. Only the nesting of brackets is checked.
\<close>

datatype token =
    TokNull | TokFalse | TokTrue | TokString string | TokNumber int
  | BeginObject | EndObject | BeginArray | EndArray

fun Kind :: "token \<Rightarrow> char" where
  "Kind TokNull = CHR ''n''"
| "Kind TokFalse = CHR ''f''"
| "Kind TokTrue = CHR ''t''"
| "Kind (TokString s) = CHR 0x22"
| "Kind (TokNumber n) = CHR ''0''"
| "Kind BeginObject = CHR ''{''"
| "Kind EndObject = CHR ''}''"
| "Kind BeginArray = CHR ''[''"
| "Kind EndArray = CHR '']''"

datatype src = Tok token | Fault error | Crash panic_val

record decoder =
  input :: "src list"
  stack :: "token list"

definition StackDepth :: "decoder \<Rightarrow> nat" where
  "StackDepth d = length (stack d)"

definition PeekKind :: "decoder \<Rightarrow> char res" where
  "PeekKind d =
     (case input d of
        Tok t # _ \<Rightarrow> Ret (Kind t)
      | Crash v # _ \<Rightarrow> Panic v
      | _ \<Rightarrow> Ret (CHR 0x00))"

definition errSyntax :: error where
  "errSyntax = ErrOther ''jsontext: invalid character''"

definition errUnexpectedEOF :: error where
  "errUnexpectedEOF = ErrOther ''unexpected EOF''"

definition ReadToken :: "decoder \<Rightarrow> (error + token) res \<times> decoder" where
  "ReadToken d =
     (case input d of
        [] \<Rightarrow> (Ret (Inl (if stack d = [] then ErrEOF else errUnexpectedEOF)), d)
      | Fault e # _ \<Rightarrow> (Ret (Inl e), d)
      | Crash v # _ \<Rightarrow> (Panic v, d)
      | Tok t # rest \<Rightarrow>
          if t = BeginObject \<or> t = BeginArray then
            (Ret (Inr t), d\<lparr>input := rest, stack := t # stack d\<rparr>)
          else if t = EndObject then
            (case stack d of
               BeginObject # s \<Rightarrow> (Ret (Inr t), d\<lparr>input := rest, stack := s\<rparr>)
             | _ \<Rightarrow> (Ret (Inl errSyntax), d))
          else if t = EndArray then
            (case stack d of
               BeginArray # s \<Rightarrow> (Ret (Inr t), d\<lparr>input := rest, stack := s\<rparr>)
             | _ \<Rightarrow> (Ret (Inl errSyntax), d))
          else (Ret (Inr t), d\<lparr>input := rest\<rparr>))"

lemma ReadToken_shorter:
  "ReadToken d = (Ret (Inr t), d') \<Longrightarrow> length (input d') < length (input d)"
  by (auto simp: ReadToken_def split: list.splits src.splits if_splits token.splits)

text \<open>
  \<^verbatim>\<open>ReadValue\<close> consumes one whole value and returns it: here the tokens it is made of.
  After the first token it reads on until the depth is back where it began.
\<close>

function read_rest :: "nat \<Rightarrow> token list \<Rightarrow> decoder \<Rightarrow> (error + token list) res \<times> decoder" where
  "read_rest depth acc d =
     (if StackDepth d = depth then (Ret (Inr acc), d)
      else case ReadToken d of
             (Ret (Inr t), d') \<Rightarrow> read_rest depth (acc @ [t]) d'
           | (Ret (Inl e), d') \<Rightarrow> (Ret (Inl e), d')
           | (Panic v, d') \<Rightarrow> (Panic v, d')
           | (Blocks, d') \<Rightarrow> (Blocks, d'))"
  by pat_completeness auto
termination
  by (relation "measure (\<lambda>(depth, acc, d). length (input d))")
     (auto dest: ReadToken_shorter [OF sym])

definition ReadValue :: "decoder \<Rightarrow> (error + token list) res \<times> decoder" where
  "ReadValue d =
     (case ReadToken d of
        (Ret (Inr t), d') \<Rightarrow>
          if t = EndObject \<or> t = EndArray then (Ret (Inl errSyntax), d)
          else read_rest (StackDepth d) [t] d'
      | (Ret (Inl e), d') \<Rightarrow> (Ret (Inl e), d')
      | (Panic v, d') \<Rightarrow> (Panic v, d')
      | (Blocks, d') \<Rightarrow> (Blocks, d'))"

section \<open>The binder\<close>

text \<open>
  \<^verbatim>\<open>json.Unmarshal(val, &l, opts)\<close> and \<^verbatim>\<open>json.UnmarshalRead(rd, &l, opts)\<close> belong to the
  binder. A call writes into the scratch variable it is given and returns an error or
  nil, or it panics (\<^verbatim>\<open>panicDecoder\<close> of the tests). \<open>Returned v err\<close> holds the scratch
  variable after the call, which may be half filled when \<open>err\<close> is an error.
\<close>

datatype 'a attempt = Returned 'a "error option" | Crashed panic_val

definition eitherErr :: "error \<Rightarrow> error \<Rightarrow> error" where
  "eitherErr errL errR = ErrEither errL errR"

section \<open>The sequential draft\<close>

text \<open>
  \<^verbatim>\<open>UnmarshalJSONFrom\<close> of the first draft: read the value, try \<open>L\<close>, then \<open>R\<close>. The result
  is what the call returns or the panic it raises, the destination afterwards and the
  decoder afterwards.
\<close>

definition UnmarshalJSONFrom_seq ::
  "(token list \<Rightarrow> 'l attempt) \<Rightarrow> (token list \<Rightarrow> 'r attempt) \<Rightarrow> decoder \<Rightarrow>
   ('l::default, 'r::default) Either \<Rightarrow> error option res \<times> ('l, 'r) Either \<times> decoder" where
  "UnmarshalJSONFrom_seq unmL unmR d e =
     (case ReadValue d of
        (Panic v, d') \<Rightarrow> (Panic v, e, d')
      | (Blocks, d') \<Rightarrow> (Blocks, e, d')
      | (Ret (Inl err), d') \<Rightarrow> (Ret (Some err), e, d')
      | (Ret (Inr val), d') \<Rightarrow>
          (case unmL val of
             Crashed v \<Rightarrow> (Panic v, e, d')
           | Returned l None \<Rightarrow> (Ret None, e\<lparr>isRight := False, el := l, er := default\<rparr>, d')
           | Returned l (Some errL) \<Rightarrow>
               (case unmR val of
                  Crashed v \<Rightarrow> (Panic v, e, d')
                | Returned r None \<Rightarrow> (Ret None, e\<lparr>isRight := True, el := default, er := r\<rparr>, d')
                | Returned r (Some errR) \<Rightarrow> (Ret (Some (eitherErr errL errR)), e, d'))))"

section \<open>Pipes and stream views\<close>

text \<open>
  \<^verbatim>\<open>io.Pipe\<close> is a collaborator. What the code relies on: each half can be closed with an
  error, the first error stored for a half stays, and once either half is closed a write
  fails with the error the reader closed with (\<^verbatim>\<open>io.ErrClosedPipe\<close> when the writer
  closed first) and a read with the error the writer closed with.
\<close>

record pipe =
  rerr :: "error option"
  werr :: "error option"

definition new_pipe :: pipe where
  "new_pipe = \<lparr>rerr = None, werr = None\<rparr>"

definition pipe_done :: "pipe \<Rightarrow> bool" where
  "pipe_done p = (rerr p \<noteq> None \<or> werr p \<noteq> None)"

definition closeRead :: "error option \<Rightarrow> pipe \<Rightarrow> pipe" where
  "closeRead err p =
     (if rerr p = None
      then p\<lparr>rerr := Some (case err of None \<Rightarrow> ErrClosedPipe | Some x \<Rightarrow> x)\<rparr>
      else p)"

definition closeWrite :: "error option \<Rightarrow> pipe \<Rightarrow> pipe" where
  "closeWrite err p =
     (if werr p = None
      then p\<lparr>werr := Some (case err of None \<Rightarrow> ErrEOF | Some x \<Rightarrow> x)\<rparr>
      else p)"

definition writeCloseError :: "pipe \<Rightarrow> error" where
  "writeCloseError p =
     (case werr p of
        None \<Rightarrow> (case rerr p of Some x \<Rightarrow> x | None \<Rightarrow> ErrClosedPipe)
      | Some _ \<Rightarrow> ErrClosedPipe)"

definition readCloseError :: "pipe \<Rightarrow> error" where
  "readCloseError p =
     (case rerr p of
        None \<Rightarrow> (case werr p of Some x \<Rightarrow> x | None \<Rightarrow> ErrClosedPipe)
      | Some _ \<Rightarrow> ErrClosedPipe)"

text \<open>
  \<^verbatim>\<open>teeReader\<close>: the mutex (\<open>t_mu\<close> is true while it is held), the closed flag and the
  read half of a pipe. Every method locks on entry and unlocks on exit by \<^verbatim>\<open>defer\<close>, so a
  method that returns or panics leaves the mutex free; a method that finds it held waits,
  and in a run where nobody else is there to release it, it never returns.
\<close>

record teeReader =
  t_mu :: bool
  t_closed :: bool
  t_pipe :: pipe

definition teeReader_Stop :: "bool \<Rightarrow> teeReader \<Rightarrow> unit res \<times> teeReader" where
  "teeReader_Stop successful v =
     (if t_mu v then (Blocks, v)
      else if t_closed v then (Ret (), v)
      else
        (let err = (if successful then ErrStopped else ErrFailedEarly)
         in (Ret (), v\<lparr>t_closed := True, t_pipe := closeRead (Some err) (t_pipe v)\<rparr>)))"

text \<open>
  \<^verbatim>\<open>Read\<close> and \<^verbatim>\<open>Close\<close> read from the pipe; \<open>rd\<close> is what that read returns (a count and
  an error), which depends on the writer.
\<close>

definition teeReader_Read ::
  "teeReader \<Rightarrow> nat \<times> error option \<Rightarrow> (nat \<times> error option) res \<times> teeReader" where
  "teeReader_Read v rd =
     (if t_mu v then (Blocks, v)
      else if t_closed v then (Ret (0, Some ErrEOF), v)
      else
        (case snd rd of
           None \<Rightarrow> (Ret rd, v)
         | Some err \<Rightarrow>
             (case as_panicErr err of Some pv \<Rightarrow> (Panic pv, v) | None \<Rightarrow> (Ret rd, v))))"

definition teeReader_Close ::
  "teeReader \<Rightarrow> nat \<times> error option \<Rightarrow> error option res \<times> teeReader" where
  "teeReader_Close v rd =
     (if t_mu v then (Blocks, v)
      else if t_closed v then (Ret None, v)
      else
        (let v1 = v\<lparr>t_closed := True\<rparr>
         in case (case snd rd of None \<Rightarrow> None | Some err \<Rightarrow> as_panicErr err) of
              Some pv \<Rightarrow> (Panic pv, v1)
            | None \<Rightarrow> (Ret None, v1\<lparr>t_pipe := closeRead None (t_pipe v1)\<rparr>)))"

text \<open>\<^verbatim>\<open>bufReader\<close>: the view over a scalar value already in memory.\<close>

record 'b bufReader =
  b_mu :: bool
  b_closed :: bool
  b_data :: "'b list"

definition bufReader_Read :: "'b bufReader \<Rightarrow> nat \<Rightarrow> ('b list \<times> error option) res \<times> 'b bufReader" where
  "bufReader_Read v n =
     (if b_mu v then (Blocks, v)
      else if b_closed v \<or> b_data v = [] then (Ret ([], Some ErrEOF), v)
      else (Ret (take n (b_data v), None), v\<lparr>b_data := drop n (b_data v)\<rparr>))"

definition bufReader_Close :: "'b bufReader \<Rightarrow> error option res \<times> 'b bufReader" where
  "bufReader_Close v = (if b_mu v then (Blocks, v) else (Ret None, v\<lparr>b_closed := True\<rparr>))"

definition bufReader_Stop :: "bool \<Rightarrow> 'b bufReader \<Rightarrow> unit res \<times> 'b bufReader" where
  "bufReader_Stop successful v = (if b_mu v then (Blocks, v) else (Ret (), v\<lparr>b_closed := True\<rparr>))"

section \<open>The two outputs of the duplicator\<close>

text \<open>
  A pipe is shared by the writer (held by \<^verbatim>\<open>multiPipeWriter\<close>, a pointer that is set to
  nil) and by its view, so the two pipes live in a store addressed by \<open>PL\<close> and \<open>PR\<close>.

  A write to a pipe returns when the consumer on the other side has taken all of it or
  has stopped. What the writer sees of a consumer is therefore how much it still takes
  before it stops (\<open>drain\<close>; \<open>None\<close> when it takes whatever is written) and the flag it
  passes to \<^verbatim>\<open>Stop\<close> then (\<open>flag\<close>). \<open>got\<close> records what the consumer has taken.
\<close>

datatype pid = PL | PR

record 'b endpoint =
  view :: teeReader
  drain :: "nat option"
  flag :: bool
  got :: "'b list"

type_synonym 'b heap = "pid \<Rightarrow> 'b endpoint"

definition new_endpoint :: "'b endpoint" where
  "new_endpoint =
     \<lparr>view = \<lparr>t_mu = False, t_closed = False, t_pipe = new_pipe\<rparr>,
      drain = None, flag = False, got = []\<rparr>"

text \<open>\<^verbatim>\<open>(*io.PipeWriter).Write\<close> against the consumer of that pipe.\<close>

definition pipe_Write :: "'b endpoint \<Rightarrow> 'b list \<Rightarrow> (nat \<times> error option) res \<times> 'b endpoint" where
  "pipe_Write ep b =
     (if pipe_done (t_pipe (view ep)) then (Ret (0, Some (writeCloseError (t_pipe (view ep)))), ep)
      else
        (case drain ep of
           None \<Rightarrow> (Ret (length b, None), ep\<lparr>got := got ep @ b\<rparr>)
         | Some k \<Rightarrow>
             if 0 < k \<and> length b \<le> k
             then (Ret (length b, None), ep\<lparr>got := got ep @ b, drain := Some (k - length b)\<rparr>)
             else
               (case teeReader_Stop (flag ep) (view ep) of
                  (Ret u, v') \<Rightarrow>
                    (Ret (min k (length b), Some (writeCloseError (t_pipe v'))),
                     ep\<lparr>view := v', got := got ep @ take k b, drain := Some 0\<rparr>)
                | (Panic pv, v') \<Rightarrow> (Panic pv, ep\<lparr>view := v'\<rparr>)
                | (Blocks, v') \<Rightarrow> (Blocks, ep\<lparr>view := v'\<rparr>))))"

text \<open>\<^verbatim>\<open>(*io.PipeWriter).CloseWithError\<close>.\<close>

definition pipe_CloseWithError :: "error option \<Rightarrow> 'b endpoint \<Rightarrow> 'b endpoint" where
  "pipe_CloseWithError err ep = ep\<lparr>view := (view ep)\<lparr>t_pipe := closeWrite err (t_pipe (view ep))\<rparr>\<rparr>"

record multiPipeWriter =
  maskedErr :: error
  wl :: "pid option"
  wr :: "pid option"

text \<open>
  \<^verbatim>\<open>multiPipeWriter.Write\<close>, in the two halves of its body. A half either returns from
  \<^verbatim>\<open>Write\<close> (\<open>Inl\<close>, with the results \<^verbatim>\<open>n\<close> and \<^verbatim>\<open>err\<close> as they stand) or falls through to
  what follows (\<open>Inr n\<close>). Calling \<^verbatim>\<open>CloseWithError\<close> on a writer that is nil panics.
\<close>

definition write_left ::
  "multiPipeWriter \<Rightarrow> 'b heap \<Rightarrow> 'b list \<Rightarrow>
   ((nat \<times> error option) res + nat) \<times> multiPipeWriter \<times> 'b heap" where
  "write_left w h b =
     (case wl w of
        None \<Rightarrow> (Inr 0, w, h)
      | Some p \<Rightarrow>
          (case pipe_Write (h p) b of
             (Ret (nl, None), ep) \<Rightarrow> (Inr nl, w, h(p := ep))
           | (Ret (nl, Some err), ep) \<Rightarrow>
               if \<not> errors_Is err (maskedErr w) then
                 (case wr w of
                    None \<Rightarrow> (Inl (Panic NilDereference), w\<lparr>wl := None\<rparr>, h(p := ep))
                  | Some q \<Rightarrow>
                      (Inl (Ret (0, Some err)), w\<lparr>wl := None, wr := None\<rparr>,
                       (h(p := ep))(q := pipe_CloseWithError (Some err) ((h(p := ep)) q))))
               else (Inr 0, w\<lparr>wl := None\<rparr>, h(p := ep))
           | (Panic pv, ep) \<Rightarrow> (Inl (Panic pv), w, h(p := ep))
           | (Blocks, ep) \<Rightarrow> (Inl Blocks, w, h(p := ep))))"

definition write_right ::
  "multiPipeWriter \<Rightarrow> 'b heap \<Rightarrow> 'b list \<Rightarrow> nat \<Rightarrow>
   ((nat \<times> error option) res + nat) \<times> multiPipeWriter \<times> 'b heap" where
  "write_right w h b n =
     (case wr w of
        None \<Rightarrow> (Inr n, w, h)
      | Some q \<Rightarrow>
          (case pipe_Write (h q) b of
             (Ret (nr, None), ep) \<Rightarrow> (Inr nr, w, h(q := ep))
           | (Ret (nr, Some err), ep) \<Rightarrow>
               if \<not> errors_Is err (maskedErr w) then
                 (case wl w of
                    None \<Rightarrow> (Inl (Panic NilDereference), w\<lparr>wr := None\<rparr>, h(q := ep))
                  | Some p \<Rightarrow>
                      (Inl (Ret (n, Some err)), w\<lparr>wr := None, wl := None\<rparr>,
                       (h(q := ep))(p := pipe_CloseWithError (Some err) ((h(q := ep)) p))))
               else (Inr n, w\<lparr>wr := None\<rparr>, h(q := ep))
           | (Panic pv, ep) \<Rightarrow> (Inl (Panic pv), w, h(q := ep))
           | (Blocks, ep) \<Rightarrow> (Inl Blocks, w, h(q := ep))))"

definition multiPipeWriter_Write ::
  "multiPipeWriter \<Rightarrow> 'b heap \<Rightarrow> 'b list \<Rightarrow>
   (nat \<times> error option) res \<times> multiPipeWriter \<times> 'b heap" where
  "multiPipeWriter_Write w h b =
     (case write_left w h b of
        (Inl out, w1, h1) \<Rightarrow> (out, w1, h1)
      | (Inr n, w1, h1) \<Rightarrow>
          (case write_right w1 h1 b n of
             (Inl out, w2, h2) \<Rightarrow> (out, w2, h2)
           | (Inr n2, w2, h2) \<Rightarrow>
               (Ret (n2, if length b \<noteq> n2 then Some ErrClosedPipe else None), w2, h2)))"

definition multiPipeWriter_CloseWithError ::
  "multiPipeWriter \<Rightarrow> 'b heap \<Rightarrow> error option \<Rightarrow> multiPipeWriter \<times> 'b heap" where
  "multiPipeWriter_CloseWithError w h err =
     (let h1 = (case wl w of None \<Rightarrow> h | Some p \<Rightarrow> h(p := pipe_CloseWithError err (h p)));
          h2 = (case wr w of None \<Rightarrow> h1 | Some q \<Rightarrow> h1(q := pipe_CloseWithError err (h1 q)))
      in (w\<lparr>wl := None, wr := None\<rparr>, h2))"

section \<open>The duplicator\<close>

text \<open>
  \<^verbatim>\<open>jsontext.Encoder\<close> is a collaborator: \<^verbatim>\<open>WriteToken\<close> appends the token to a buffer and
  now and then flushes the buffer to its writer. It is the parameter \<open>encf\<close>: from the
  encoder and a token to the encoder afterwards and the bytes it flushes, if it flushes.
  A flush that fails makes \<^verbatim>\<open>WriteToken\<close> return the error, wrapped.
\<close>

type_synonym ('es, 'b) encoder = "'es \<Rightarrow> token \<Rightarrow> 'es \<times> 'b list option"

record ('es, 'b) tee =
  t_dec :: decoder
  t_enc :: 'es
  t_mw :: multiPipeWriter
  t_heap :: "'b heap"

definition WriteToken ::
  "('es, 'b) encoder \<Rightarrow> token \<Rightarrow> ('es, 'b) tee \<Rightarrow> error option res \<times> ('es, 'b) tee" where
  "WriteToken encf tok s =
     (case encf (t_enc s) tok of
        (es, None) \<Rightarrow> (Ret None, s\<lparr>t_enc := es\<rparr>)
      | (es, Some b) \<Rightarrow>
          (case multiPipeWriter_Write (t_mw s) (t_heap s) b of
             (Ret (n, None), w, h) \<Rightarrow> (Ret None, s\<lparr>t_enc := es, t_mw := w, t_heap := h\<rparr>)
           | (Ret (n, Some err), w, h) \<Rightarrow>
               (Ret (Some (ErrWrite err)), s\<lparr>t_enc := es, t_mw := w, t_heap := h\<rparr>)
           | (Panic pv, w, h) \<Rightarrow> (Panic pv, s\<lparr>t_enc := es, t_mw := w, t_heap := h\<rparr>)
           | (Blocks, w, h) \<Rightarrow> (Blocks, s\<lparr>t_enc := es, t_mw := w, t_heap := h\<rparr>)))"

lemma WriteToken_dec: "WriteToken encf tok s = (out, s') \<Longrightarrow> t_dec s' = t_dec s"
  by (auto simp: WriteToken_def split: prod.splits option.splits res.splits)

text \<open>The loop of the copy task in \<^verbatim>\<open>TeeDecoder\<close>; the result is the variable \<^verbatim>\<open>err\<close>.\<close>

function copy_loop ::
  "('es, 'b) encoder \<Rightarrow> nat \<Rightarrow> ('es, 'b) tee \<Rightarrow> error option res \<times> ('es, 'b) tee" where
  "copy_loop encf depth s =
     (case ReadToken (t_dec s) of
        (Ret (Inl err), d') \<Rightarrow> (Ret (Some err), s\<lparr>t_dec := d'\<rparr>)
      | (Panic pv, d') \<Rightarrow> (Panic pv, s\<lparr>t_dec := d'\<rparr>)
      | (Blocks, d') \<Rightarrow> (Blocks, s\<lparr>t_dec := d'\<rparr>)
      | (Ret (Inr tok), d') \<Rightarrow>
          (case WriteToken encf tok (s\<lparr>t_dec := d'\<rparr>) of
             (Ret None, s') \<Rightarrow>
               if StackDepth (t_dec s') = depth then (Ret None, s')
               else copy_loop encf depth s'
           | (Ret (Some err), s') \<Rightarrow> (Ret (Some err), s')
           | (Panic pv, s') \<Rightarrow> (Panic pv, s')
           | (Blocks, s') \<Rightarrow> (Blocks, s')))"
  by pat_completeness auto
termination
  by (relation "measure (\<lambda>(encf, depth, s). length (input (t_dec s)))")
     (auto dest!: ReadToken_shorter [OF sym] WriteToken_dec [OF sym])

text \<open>
  The copy task: the loop, then the deferred function, which turns a panic into a
  \<^verbatim>\<open>*panicErr\<close> and closes both writers with \<^verbatim>\<open>err\<close>. The result is \<^verbatim>\<open>err\<close> at the end;
  \<open>Blocks\<close> when the task never ends.
\<close>

definition copy_task :: "('es, 'b) encoder \<Rightarrow> ('es, 'b) tee \<Rightarrow> error option res \<times> ('es, 'b) tee" where
  "copy_task encf s =
     (case copy_loop encf (StackDepth (t_dec s)) s of
        (Blocks, s') \<Rightarrow> (Blocks, s')
      | (out, s') \<Rightarrow>
          (let err = (case out of Ret e \<Rightarrow> e | Panic pv \<Rightarrow> Some (PanicErr pv) | Blocks \<Rightarrow> None);
               (w, h) = multiPipeWriter_CloseWithError (t_mw s') (t_heap s') err
           in (Ret err, s'\<lparr>t_mw := w, t_heap := h\<rparr>)))"

text \<open>
  \<^verbatim>\<open>TeeDecoder\<close>. For a scalar it returns two \<^verbatim>\<open>bufReader\<close>s over the value; for a
  composite the two views and the copy task, which \<^verbatim>\<open>wait\<close> joins: here the state the
  copy task starts from.
\<close>

datatype ('es, 'b) teed =
    TeeFailed error decoder
  | TeePanic panic_val decoder
  | TeeBlocks decoder
  | TeeScalar "token bufReader" "token bufReader" decoder
  | TeeStreams "('es, 'b) tee"

definition scalar_kinds :: "char set" where
  "scalar_kinds = {CHR ''n'', CHR ''f'', CHR ''t'', CHR 0x22, CHR ''0''}"

definition composite_kinds :: "char set" where
  "composite_kinds = {CHR ''{'', CHR ''[''}"

text \<open>
  The composite case of \<^verbatim>\<open>TeeDecoder\<close>: two fresh pipes, a view on each, and the copy
  task about to start with a \<^verbatim>\<open>multiPipeWriter\<close> over both writers.
\<close>

definition new_tee :: "'es \<Rightarrow> decoder \<Rightarrow> ('es, 'b) tee" where
  "new_tee es0 d =
     \<lparr>t_dec = d, t_enc = es0,
      t_mw = \<lparr>maskedErr = ErrFailedEarly, wl = Some PL, wr = Some PR\<rparr>,
      t_heap = (\<lambda>p. new_endpoint)\<rparr>"

definition TeeDecoder :: "'es \<Rightarrow> decoder \<Rightarrow> ('es, 'b) teed" where
  "TeeDecoder es0 d =
     (case PeekKind d of
        Panic pv \<Rightarrow> TeePanic pv d
      | Blocks \<Rightarrow> TeeBlocks d
      | Ret k \<Rightarrow>
          if k \<in> scalar_kinds then
            (case ReadValue d of
               (Ret (Inr val), d') \<Rightarrow>
                 TeeScalar \<lparr>b_mu = False, b_closed = False, b_data = val\<rparr>
                           \<lparr>b_mu = False, b_closed = False, b_data = val\<rparr> d'
             | (Ret (Inl err), d') \<Rightarrow> TeeFailed err d'
             | (Panic pv, d') \<Rightarrow> TeePanic pv d'
             | (Blocks, d') \<Rightarrow> TeeBlocks d')
          else if k \<in> composite_kinds then TeeStreams (new_tee es0 d)
          else TeeFailed (ErrBadDec [k]) d)"

section \<open>The draft built on the duplicator\<close>

text \<open>
  What a call of \<^verbatim>\<open>UnmarshalJSONFrom\<close> leaves behind: what it returns or the panic it
  raises, the destination, the decoder, the duplicator with its two views when one was
  made, and the variable \<^verbatim>\<open>panicVal\<close>.
\<close>

record ('l, 'r, 'es, 'b) resolved =
  outcome :: "error option res"
  dest :: "('l, 'r) Either"
  cursor :: decoder
  streams :: "('es, 'b) tee option"
  panicVal :: "panic_val option"

text \<open>The scalar branch: the value is read once and tried against \<open>L\<close>, then \<open>R\<close>.\<close>

definition scalar_branch ::
  "(token list \<Rightarrow> 'l attempt) \<Rightarrow> (token list \<Rightarrow> 'r attempt) \<Rightarrow> decoder \<Rightarrow>
   ('l::default, 'r::default) Either \<Rightarrow> ('l, 'r, 'es, 'b) resolved" where
  "scalar_branch unmL unmR d e =
     (case ReadValue d of
        (Panic pv, d') \<Rightarrow>
          \<lparr>outcome = Panic pv, dest = e, cursor = d', streams = None, panicVal = None\<rparr>
      | (Blocks, d') \<Rightarrow>
          \<lparr>outcome = Blocks, dest = e, cursor = d', streams = None, panicVal = None\<rparr>
      | (Ret (Inl err), d') \<Rightarrow>
          \<lparr>outcome = Ret (Some err), dest = e, cursor = d', streams = None, panicVal = None\<rparr>
      | (Ret (Inr val), d') \<Rightarrow>
          (case unmL val of
             Crashed pv \<Rightarrow>
               \<lparr>outcome = Panic pv, dest = e, cursor = d', streams = None, panicVal = None\<rparr>
           | Returned l None \<Rightarrow>
               \<lparr>outcome = Ret None, dest = e\<lparr>isRight := False, el := l, er := default\<rparr>,
                cursor = d', streams = None, panicVal = None\<rparr>
           | Returned l (Some errL) \<Rightarrow>
               (case unmR val of
                  Crashed pv \<Rightarrow>
                    \<lparr>outcome = Panic pv, dest = e, cursor = d', streams = None, panicVal = None\<rparr>
                | Returned r None \<Rightarrow>
                    \<lparr>outcome = Ret None, dest = e\<lparr>isRight := True, el := default, er := r\<rparr>,
                     cursor = d', streams = None, panicVal = None\<rparr>
                | Returned r (Some errR) \<Rightarrow>
                    \<lparr>outcome = Ret (Some (eitherErr errL errR)), dest = e, cursor = d',
                     streams = None, panicVal = None\<rparr>)))"

text \<open>
  The composite branch runs \<^verbatim>\<open>json.UnmarshalRead\<close> for \<open>R\<close> in a worker and for \<open>L\<close> on
  the calling goroutine, each against its own view. One side is given by what its call
  does in the end (\<open>attempt\<close>) and by how much of its view it takes before the call is
  over (\<open>takes\<close>; \<open>None\<close> when it reads until the view ends).
\<close>

record 'a side =
  attempt :: "'a attempt"
  takes :: "nat option"

definition succeeded :: "'a attempt \<Rightarrow> bool" where
  "succeeded a = (case a of Returned v None \<Rightarrow> True | _ \<Rightarrow> False)"

text \<open>
  The worker recovers a panic of the \<open>R\<close> side and stores it once in \<^verbatim>\<open>panicVal\<close>; nothing
  else writes that variable.
\<close>

definition stored :: "'r attempt \<Rightarrow> panic_val option" where
  "stored aR = (case aR of Crashed pv \<Rightarrow> Some pv | Returned r err \<Rightarrow> None)"

text \<open>
  What follows the two calls: a panic of the \<open>L\<close> side is not recovered and leaves through
  the deferred calls; otherwise, after \<^verbatim>\<open>wg.Wait()\<close>, a stored panic is raised again;
  otherwise the two results are reduced.
\<close>

definition reduce ::
  "'l attempt \<Rightarrow> 'r attempt \<Rightarrow> ('l::default, 'r::default) Either \<Rightarrow>
   error option res \<times> ('l, 'r) Either" where
  "reduce aL aR e =
     (case aL of
        Crashed pv \<Rightarrow> (Panic pv, e)
      | Returned l errL \<Rightarrow>
          (case stored aR of
             Some pv \<Rightarrow> (Panic pv, e)
           | None \<Rightarrow>
               (case errL of
                  None \<Rightarrow> (Ret None, e\<lparr>isRight := False, el := l, er := default\<rparr>)
                | Some eL \<Rightarrow>
                    (case aR of
                       Returned r None \<Rightarrow> (Ret None, e\<lparr>isRight := True, el := default, er := r\<rparr>)
                     | Returned r (Some eR) \<Rightarrow> (Ret (Some (eitherErr eL eR)), e)
                     | Crashed pv \<Rightarrow> (Panic pv, e)))))"

definition stop_view :: "bool \<Rightarrow> pid \<Rightarrow> 'b heap \<Rightarrow> unit res \<times> 'b heap" where
  "stop_view successful p h =
     (case teeReader_Stop successful (view (h p)) of
        (out, v') \<Rightarrow> (out, h(p := (h p)\<lparr>view := v'\<rparr>)))"

fun stops :: "(bool \<times> pid) list \<Rightarrow> 'b heap \<Rightarrow> unit res \<times> 'b heap" where
  "stops [] h = (Ret (), h)"
| "stops ((successful, p) # rest) h =
     (case stop_view successful p h of
        (Ret u, h') \<Rightarrow> stops rest h'
      | (Panic pv, h') \<Rightarrow> (Panic pv, h')
      | (Blocks, h') \<Rightarrow> (Blocks, h'))"

text \<open>
  The two sides as the consumers of the two views: the \<open>L\<close> side stops its view with
  \<^verbatim>\<open>errL == nil\<close> (with false when the call panicked), the \<open>R\<close> side always with false.
\<close>

definition attach :: "'l side \<Rightarrow> 'r side \<Rightarrow> ('es, 'b) tee \<Rightarrow> ('es, 'b) tee" where
  "attach sL sR t0 =
     t0\<lparr>t_heap := (t_heap t0)
           (PL := (t_heap t0 PL)\<lparr>drain := takes sL, flag := succeeded (attempt sL)\<rparr>,
            PR := (t_heap t0 PR)\<lparr>drain := takes sR, flag := False\<rparr>)\<rparr>"

text \<open>
  The composite branch. The copy task runs against the two sides; each side stops its
  view when its call is over (\<^verbatim>\<open>rl.Stop(errL == nil)\<close>, or the deferred \<^verbatim>\<open>rl.Stop(false)\<close>
  when the call panicked, and \<^verbatim>\<open>rr.Stop(false)\<close> in the worker), which happens inside a
  write when the copy task is still writing and after it otherwise; then the deferred
  function stops both views again and joins the copy task, and the deferred
  \<^verbatim>\<open>wg.Wait()\<close> joins the worker.
\<close>

definition composite_branch ::
  "('es, 'b) encoder \<Rightarrow> 'es \<Rightarrow> 'l side \<Rightarrow> 'r side \<Rightarrow> decoder \<Rightarrow>
   ('l::default, 'r::default) Either \<Rightarrow> ('l, 'r, 'es, 'b) resolved" where
  "composite_branch encf es0 sL sR d e =
     (case TeeDecoder es0 d of
        TeeFailed err d' \<Rightarrow>
          \<lparr>outcome = Ret (Some err), dest = e, cursor = d', streams = None, panicVal = None\<rparr>
      | TeePanic pv d' \<Rightarrow>
          \<lparr>outcome = Panic pv, dest = e, cursor = d', streams = None, panicVal = None\<rparr>
      | TeeBlocks d' \<Rightarrow>
          \<lparr>outcome = Blocks, dest = e, cursor = d', streams = None, panicVal = None\<rparr>
      | TeeScalar bl br d' \<Rightarrow>
          (case reduce (attempt sL) (attempt sR) e of
             (out, e') \<Rightarrow>
               \<lparr>outcome = out, dest = e', cursor = d', streams = None,
                panicVal = stored (attempt sR)\<rparr>)
      | TeeStreams t0 \<Rightarrow>
          (case copy_task encf (attach sL sR t0) of
                (Ret err, t2) \<Rightarrow>
                  (case stops [(succeeded (attempt sL), PL), (False, PR), (False, PL), (False, PR)]
                          (t_heap t2) of
                     (Ret u, h3) \<Rightarrow>
                       (case reduce (attempt sL) (attempt sR) e of
                          (out, e') \<Rightarrow>
                            \<lparr>outcome = out, dest = e', cursor = t_dec t2,
                             streams = Some (t2\<lparr>t_heap := h3\<rparr>),
                             panicVal = stored (attempt sR)\<rparr>)
                   | (Panic pv, h3) \<Rightarrow>
                       \<lparr>outcome = Panic pv, dest = e, cursor = t_dec t2,
                        streams = Some (t2\<lparr>t_heap := h3\<rparr>), panicVal = stored (attempt sR)\<rparr>
                   | (Blocks, h3) \<Rightarrow>
                       \<lparr>outcome = Blocks, dest = e, cursor = t_dec t2,
                        streams = Some (t2\<lparr>t_heap := h3\<rparr>), panicVal = stored (attempt sR)\<rparr>)
              | (Panic pv, t2) \<Rightarrow>
                  \<lparr>outcome = Panic pv, dest = e, cursor = t_dec t2, streams = Some t2,
                   panicVal = stored (attempt sR)\<rparr>
              | (Blocks, t2) \<Rightarrow>
                  \<lparr>outcome = Blocks, dest = e, cursor = t_dec t2, streams = Some t2,
                   panicVal = stored (attempt sR)\<rparr>))"

text \<open>\<^verbatim>\<open>UnmarshalJSONFrom\<close> of the draft built on \<^verbatim>\<open>TeeDecoder\<close>.\<close>

definition UnmarshalJSONFrom ::
  "('es, 'b) encoder \<Rightarrow> 'es \<Rightarrow> (token list \<Rightarrow> 'l attempt) \<Rightarrow> (token list \<Rightarrow> 'r attempt) \<Rightarrow>
   'l side \<Rightarrow> 'r side \<Rightarrow> decoder \<Rightarrow> ('l::default, 'r::default) Either \<Rightarrow>
   ('l, 'r, 'es, 'b) resolved" where
  "UnmarshalJSONFrom encf es0 unmL unmR sL sR d e =
     (case PeekKind d of
        Panic pv \<Rightarrow>
          \<lparr>outcome = Panic pv, dest = e, cursor = d, streams = None, panicVal = None\<rparr>
      | Blocks \<Rightarrow>
          \<lparr>outcome = Blocks, dest = e, cursor = d, streams = None, panicVal = None\<rparr>
      | Ret k \<Rightarrow>
          if k \<in> scalar_kinds then scalar_branch unmL unmR d e
          else if k \<in> composite_kinds then composite_branch encf es0 sL sR d e
          else
            (case ReadValue d of
               (Ret (Inl err), d') \<Rightarrow>
                 \<lparr>outcome = Ret (Some err), dest = e, cursor = d', streams = None, panicVal = None\<rparr>
             | (Ret (Inr val), d') \<Rightarrow>
                 \<lparr>outcome = Ret None, dest = e, cursor = d', streams = None, panicVal = None\<rparr>
             | (Panic pv, d') \<Rightarrow>
                 \<lparr>outcome = Panic pv, dest = e, cursor = d', streams = None, panicVal = None\<rparr>
             | (Blocks, d') \<Rightarrow>
                 \<lparr>outcome = Blocks, dest = e, cursor = d', streams = None, panicVal = None\<rparr>))"

section \<open>Values and encoders to state and test the properties with\<close>

text \<open>A JSON value and the tokens the token reader delivers for it.\<close>

datatype json =
    JNull | JBool bool | JNumber int | JString string
  | JArray "json list"
  | JObject "(string \<times> json) list"

fun tokens :: "json \<Rightarrow> token list" where
  "tokens JNull = [TokNull]"
| "tokens (JBool b) = [if b then TokTrue else TokFalse]"
| "tokens (JNumber n) = [TokNumber n]"
| "tokens (JString s) = [TokString s]"
| "tokens (JArray vs) = BeginArray # concat (map tokens vs) @ [EndArray]"
| "tokens (JObject ms) =
     BeginObject # concat (map (\<lambda>m. TokString (fst m) # tokens (snd m)) ms) @ [EndObject]"

definition is_composite :: "json \<Rightarrow> bool" where
  "is_composite v = (case v of JArray vs \<Rightarrow> True | JObject ms \<Rightarrow> True | _ \<Rightarrow> False)"

text \<open>The decoder in front of the value \<open>v\<close>, with \<open>rest\<close> after it.\<close>

definition decoder_at :: "token list \<Rightarrow> json \<Rightarrow> src list \<Rightarrow> decoder" where
  "decoder_at st v rest = \<lparr>input = map Tok (tokens v) @ rest, stack = st\<rparr>"

text \<open>
  An encoder that keeps the tokens it is given in a buffer of capacity \<open>cap\<close> and flushes
  when the value at the top is complete or more than three quarters of the buffer are
  in use; one token counts as one unit.
\<close>

fun depth_after :: "nat \<Rightarrow> token \<Rightarrow> nat" where
  "depth_after n BeginObject = Suc n"
| "depth_after n BeginArray = Suc n"
| "depth_after n EndObject = n - 1"
| "depth_after n EndArray = n - 1"
| "depth_after n t = n"

definition buffered :: "nat \<Rightarrow> (token list \<times> nat, token) encoder" where
  "buffered cap es tok =
     (let buf = fst es @ [tok]; n = depth_after (snd es) tok
      in if n = 0 \<or> 3 * cap div 4 < length buf then (([], n), Some buf)
         else ((buf, n), None))"

section \<open>Notions the proofs use\<close>

text \<open>No view has its mutex held.\<close>

definition unlocked :: "'b heap \<Rightarrow> bool" where
  "unlocked h = (\<forall>p. \<not> t_mu (view (h p)))"

text \<open>
  \<open>advance n d\<close>: the tokens and the decoder after \<open>n\<close> calls of \<^verbatim>\<open>ReadToken\<close> that all
  return a token.
\<close>

fun advance :: "nat \<Rightarrow> decoder \<Rightarrow> (token list \<times> decoder) option" where
  "advance 0 d = Some ([], d)"
| "advance (Suc n) d =
     (case ReadToken d of
        (Ret (Inr t), d') \<Rightarrow>
          (case advance n d' of Some (ts, d'') \<Rightarrow> Some (t # ts, d'') | None \<Rightarrow> None)
      | _ \<Rightarrow> None)"

text \<open>
  A run of tokens that the decoder reads without a fault from any stack, never going
  below the stack it started with and ending on it; and one that is below it again only
  at its very end, as the tokens of one composite value are.
\<close>

definition seg :: "token list \<Rightarrow> bool" where
  "seg ts = (\<forall>st rest m. m \<le> length ts \<longrightarrow>
      (\<exists>st'. advance m \<lparr>input = map Tok ts @ rest, stack = st\<rparr> =
              Some (take m ts, \<lparr>input = map Tok (drop m ts) @ rest, stack = st' @ st\<rparr>) \<and>
            (m = length ts \<longrightarrow> st' = [])))"

definition closed_value :: "token list \<Rightarrow> bool" where
  "closed_value ts = (\<forall>st rest m. m \<le> length ts \<longrightarrow>
      (\<exists>st'. advance m \<lparr>input = map Tok ts @ rest, stack = st\<rparr> =
              Some (take m ts, \<lparr>input = map Tok (drop m ts) @ rest, stack = st' @ st\<rparr>) \<and>
            (st' = [] \<longleftrightarrow> m = 0 \<or> m = length ts)))"

text \<open>\<open>n\<close> rounds of the body of the copy loop, without the test that ends the loop.\<close>

fun iterate :: "('es, 'b) encoder \<Rightarrow> nat \<Rightarrow> ('es, 'b) tee \<Rightarrow> error option res \<times> ('es, 'b) tee" where
  "iterate encf 0 s = (Ret None, s)"
| "iterate encf (Suc n) s =
     (case ReadToken (t_dec s) of
        (Ret (Inl err), d') \<Rightarrow> (Ret (Some err), s\<lparr>t_dec := d'\<rparr>)
      | (Panic pv, d') \<Rightarrow> (Panic pv, s\<lparr>t_dec := d'\<rparr>)
      | (Blocks, d') \<Rightarrow> (Blocks, s\<lparr>t_dec := d'\<rparr>)
      | (Ret (Inr tok), d') \<Rightarrow>
          (case WriteToken encf tok (s\<lparr>t_dec := d'\<rparr>) of
             (Ret None, s') \<Rightarrow> iterate encf n s'
           | (Ret (Some err), s') \<Rightarrow> (Ret (Some err), s')
           | (Panic pv, s') \<Rightarrow> (Panic pv, s')
           | (Blocks, s') \<Rightarrow> (Blocks, s')))"

text \<open>Everything the encoder flushes while it is given the tokens \<open>ts\<close>, starting from \<open>es\<close>.\<close>

fun flushed :: "('es, 'b) encoder \<Rightarrow> 'es \<Rightarrow> token list \<Rightarrow> 'b list" where
  "flushed encf es [] = []"
| "flushed encf es (t # ts) =
     (case encf es t of
        (es', None) \<Rightarrow> flushed encf es' ts
      | (es', Some b) \<Rightarrow> b @ flushed encf es' ts)"

fun other :: "pid \<Rightarrow> pid" where
  "other PL = PR"
| "other PR = PL"

fun writer_of :: "pid \<Rightarrow> multiPipeWriter \<Rightarrow> pid option" where
  "writer_of PL w = wl w"
| "writer_of PR w = wr w"

text \<open>
  An output whose consumer stops only with \<^verbatim>\<open>Stop(false)\<close>: a write to it succeeds or
  fails with \<^verbatim>\<open>errFailedEarly\<close>.
\<close>

definition harmless :: "'b endpoint \<Rightarrow> bool" where
  "harmless ep =
     (\<not> flag ep \<and> \<not> t_mu (view ep) \<and> werr (t_pipe (view ep)) = None \<and>
      (rerr (t_pipe (view ep)) = None \<and> \<not> t_closed (view ep) \<or>
       rerr (t_pipe (view ep)) = Some ErrFailedEarly))"

text \<open>
  The output \<open>p\<close> takes whatever is written, and the other output is gone from the
  writer or harmless.
\<close>

definition forwards :: "pid \<Rightarrow> multiPipeWriter \<Rightarrow> 'b heap \<Rightarrow> bool" where
  "forwards p w h =
     (maskedErr w = ErrFailedEarly \<and> writer_of p w = Some p \<and>
      \<not> pipe_done (t_pipe (view (h p))) \<and> drain (h p) = None \<and>
      (writer_of (other p) w = None \<or>
       writer_of (other p) w = Some (other p) \<and> harmless (h (other p))))"

section \<open>EXAMPLES\<close>

section \<open>The calls of one round return\<close>

lemma Stop_unlocked:
  "\<not> t_mu v \<Longrightarrow> \<exists>v'. teeReader_Stop b v = (Ret (), v') \<and> \<not> t_mu v'"
  by (simp add: teeReader_Stop_def Let_def)

lemma pipe_Write_unlocked:
  assumes "\<not> t_mu (view ep)"
  shows "\<exists>n err ep'. pipe_Write ep b = (Ret (n, err), ep') \<and> \<not> t_mu (view ep')"
proof -
  obtain v' where v': "teeReader_Stop (flag ep) (view ep) = (Ret (), v')" "\<not> t_mu v'"
    using Stop_unlocked [OF assms] by blast
  show ?thesis
    using assms v' by (auto simp: pipe_Write_def split: option.splits)
qed

lemma write_left_unlocked:
  assumes "unlocked h" and "write_left w h b = (out, w', h')"
  shows "unlocked h' \<and> out \<noteq> Inl Blocks"
proof (cases "wl w")
  case None
  then show ?thesis using assms by (auto simp: write_left_def)
next
  case (Some p)
  obtain n err ep' where pw: "pipe_Write (h p) b = (Ret (n, err), ep')" "\<not> t_mu (view ep')"
    using pipe_Write_unlocked [of "h p" b] assms(1) by (auto simp: unlocked_def)
  show ?thesis
    using assms Some pw
    by (auto simp: write_left_def unlocked_def pipe_CloseWithError_def
             split: option.splits if_splits)
qed

lemma write_right_unlocked:
  assumes "unlocked h" and "write_right w h b n0 = (out, w', h')"
  shows "unlocked h' \<and> out \<noteq> Inl Blocks"
proof (cases "wr w")
  case None
  then show ?thesis using assms by (auto simp: write_right_def)
next
  case (Some p)
  obtain n err ep' where pw: "pipe_Write (h p) b = (Ret (n, err), ep')" "\<not> t_mu (view ep')"
    using pipe_Write_unlocked [of "h p" b] assms(1) by (auto simp: unlocked_def)
  show ?thesis
    using assms Some pw
    by (auto simp: write_right_def unlocked_def pipe_CloseWithError_def
             split: option.splits if_splits)
qed

lemma Write_unlocked:
  assumes "unlocked h" and "multiPipeWriter_Write w h b = (out, w', h')"
  shows "unlocked h' \<and> out \<noteq> Blocks"
proof -
  obtain o1 w1 h1 where l: "write_left w h b = (o1, w1, h1)" by (cases "write_left w h b") auto
  have u1: "unlocked h1" "o1 \<noteq> Inl Blocks" using write_left_unlocked [OF assms(1) l] by auto
  show ?thesis
  proof (cases o1)
    case (Inl r)
    then show ?thesis using assms(2) l u1 by (simp add: multiPipeWriter_Write_def)
  next
    case (Inr n)
    obtain o2 w2 h2 where r: "write_right w1 h1 b n = (o2, w2, h2)"
      by (cases "write_right w1 h1 b n") auto
    have u2: "unlocked h2" "o2 \<noteq> Inl Blocks" using write_right_unlocked [OF u1(1) r] by auto
    show ?thesis using assms(2) l r Inr u2
      by (cases o2) (auto simp: multiPipeWriter_Write_def)
  qed
qed

lemma WriteToken_unlocked:
  assumes "unlocked (t_heap s)" and "WriteToken encf tok s = (out, s')"
  shows "unlocked (t_heap s') \<and> out \<noteq> Blocks"
proof (cases "encf (t_enc s) tok")
  case (Pair es fl)
  show ?thesis
  proof (cases fl)
    case None
    then show ?thesis using assms Pair by (auto simp: WriteToken_def)
  next
    case (Some b)
    obtain o1 w1 h1 where w: "multiPipeWriter_Write (t_mw s) (t_heap s) b = (o1, w1, h1)"
      by (cases "multiPipeWriter_Write (t_mw s) (t_heap s) b") auto
    from Write_unlocked [OF assms(1) w] show ?thesis
      using assms(2) Pair Some w
      by (auto simp: WriteToken_def split: res.splits option.splits prod.splits)
  qed
qed

lemma copy_loop_unlocked:
  "unlocked (t_heap s) \<Longrightarrow> copy_loop encf depth s = (out, s') \<Longrightarrow>
   unlocked (t_heap s') \<and> out \<noteq> Blocks"
proof (induction encf depth s arbitrary: out s' rule: copy_loop.induct)
  case (1 encf depth s)
  obtain r d' where rt: "ReadToken (t_dec s) = (r, d')" by (cases "ReadToken (t_dec s)") auto
  have nb: "r \<noteq> Blocks" using rt
    by (auto simp: ReadToken_def split: list.splits src.splits if_splits token.splits)
  show ?case
  proof (cases r)
    case Blocks
    then show ?thesis using nb by simp
  next
    case (Panic pv)
    then show ?thesis using "1.prems" rt by (subst (asm) copy_loop.simps) auto
  next
    case (Ret x)
    show ?thesis
    proof (cases x)
      case (Inl err)
      then show ?thesis using "1.prems" rt Ret by (subst (asm) copy_loop.simps) auto
    next
      case (Inr tok)
      obtain o1 s1 where wt: "WriteToken encf tok (s\<lparr>t_dec := d'\<rparr>) = (o1, s1)"
        by (cases "WriteToken encf tok (s\<lparr>t_dec := d'\<rparr>)") auto
      have u1: "unlocked (t_heap s1)" "o1 \<noteq> Blocks"
        using WriteToken_unlocked [OF _ wt] "1.prems"(1) by auto
      show ?thesis
      proof (cases "o1 = Ret None \<and> StackDepth (t_dec s1) \<noteq> depth")
        case True
        then have "copy_loop encf depth s = copy_loop encf depth s1"
          using rt Ret Inr wt by (subst copy_loop.simps) simp
        then show ?thesis
          using "1.IH" [OF rt [symmetric] Ret Inr wt [symmetric] _ _ _ u1(1)] True "1.prems"(2)
          by auto
      next
        case False
        then show ?thesis using "1.prems"(2) rt Ret Inr wt u1
          by (subst (asm) copy_loop.simps) (auto split: res.splits option.splits if_splits)
      qed
    qed
  qed
qed

lemma t_mu_pipe_CloseWithError [simp]:
  "t_mu (view (pipe_CloseWithError err ep)) = t_mu (view ep)"
  by (simp add: pipe_CloseWithError_def)

lemma CloseWithError_unlocked:
  "unlocked h \<Longrightarrow> multiPipeWriter_CloseWithError w h err = (w', h') \<Longrightarrow>
   unlocked h' \<and> wl w' = None \<and> wr w' = None"
  by (auto simp: multiPipeWriter_CloseWithError_def unlocked_def Let_def
           split: option.splits if_splits)

lemma copy_task_returns:
  assumes "unlocked (t_heap s)"
  shows "\<exists>err s'. copy_task encf s = (Ret err, s') \<and> unlocked (t_heap s') \<and>
           wl (t_mw s') = None \<and> wr (t_mw s') = None"
proof -
  obtain out s1 where l: "copy_loop encf (StackDepth (t_dec s)) s = (out, s1)"
    by (cases "copy_loop encf (StackDepth (t_dec s)) s") auto
  have u: "unlocked (t_heap s1)" "out \<noteq> Blocks"
    using copy_loop_unlocked [OF assms l] by auto
  obtain w h where c: "multiPipeWriter_CloseWithError (t_mw s1) (t_heap s1)
      (case out of Ret e \<Rightarrow> e | Panic pv \<Rightarrow> Some (PanicErr pv) | Blocks \<Rightarrow> None) = (w, h)"
    by (cases "multiPipeWriter_CloseWithError (t_mw s1) (t_heap s1)
      (case out of Ret e \<Rightarrow> e | Panic pv \<Rightarrow> Some (PanicErr pv) | Blocks \<Rightarrow> None)") auto
  from CloseWithError_unlocked [OF u(1) c] show ?thesis
    using l u(2) c by (cases out) (auto simp: copy_task_def)
qed

lemma stop_view_unlocked:
  assumes "unlocked h"
  shows "\<exists>h'. stop_view b p h = (Ret (), h') \<and> unlocked h' \<and> t_closed (view (h' p)) \<and>
           (\<forall>q. t_closed (view (h q)) \<longrightarrow> t_closed (view (h' q)))"
proof -
  have "\<not> t_mu (view (h p))" using assms by (simp add: unlocked_def)
  then show ?thesis using assms
    by (auto simp: stop_view_def teeReader_Stop_def Let_def unlocked_def)
qed

lemma stops_unlocked:
  "unlocked h \<Longrightarrow>
   \<exists>h'. stops xs h = (Ret (), h') \<and> unlocked h' \<and>
        (\<forall>q. t_closed (view (h q)) \<or> q \<in> snd ` set xs \<longrightarrow> t_closed (view (h' q)))"
proof (induction xs arbitrary: h)
  case Nil
  then show ?case by simp
next
  case (Cons x xs)
  obtain b p where x: "x = (b, p)" by (cases x) auto
  obtain h1 where h1: "stop_view b p h = (Ret (), h1)" "unlocked h1" "t_closed (view (h1 p))"
      "\<forall>q. t_closed (view (h q)) \<longrightarrow> t_closed (view (h1 q))"
    using stop_view_unlocked [OF Cons.prems, of b p] by blast
  obtain h2 where h2: "stops xs h1 = (Ret (), h2)" "unlocked h2"
      "\<forall>q. t_closed (view (h1 q)) \<or> q \<in> snd ` set xs \<longrightarrow> t_closed (view (h2 q))"
    using Cons.IH [OF h1(2)] by blast
  show ?case using x h1 h2 by auto
qed

lemma kinds_disjoint: "k \<in> composite_kinds \<Longrightarrow> k \<notin> scalar_kinds"
  by (auto simp: composite_kinds_def scalar_kinds_def)

lemma TeeDecoder_composite:
  "PeekKind d = Ret k \<Longrightarrow> k \<in> composite_kinds \<Longrightarrow>
   TeeDecoder es0 d = TeeStreams (new_tee es0 d)"
  by (simp add: TeeDecoder_def kinds_disjoint)

lemma attach_unlocked: "unlocked (t_heap (attach sL sR (new_tee es0 d)))"
  by (simp add: attach_def new_tee_def unlocked_def new_endpoint_def)

lemma composite_branch_eq:
  assumes "PeekKind d = Ret k" and "k \<in> composite_kinds"
  shows "\<exists>t. composite_branch encf es0 sL sR d e =
            \<lparr>outcome = fst (reduce (attempt sL) (attempt sR) e),
             dest = snd (reduce (attempt sL) (attempt sR) e),
             cursor = t_dec (snd (copy_task encf (attach sL sR (new_tee es0 d)))),
             streams = Some t, panicVal = stored (attempt sR)\<rparr> \<and>
           t_closed (view (t_heap t PL)) \<and> t_closed (view (t_heap t PR)) \<and>
           wl (t_mw t) = None \<and> wr (t_mw t) = None"
proof -
  obtain err t2 where ct: "copy_task encf (attach sL sR (new_tee es0 d)) = (Ret err, t2)"
      "unlocked (t_heap t2)" "wl (t_mw t2) = None" "wr (t_mw t2) = None"
    using copy_task_returns [OF attach_unlocked, of encf sL sR es0 d] by blast
  obtain h3 where st: "stops [(succeeded (attempt sL), PL), (False, PR), (False, PL), (False, PR)]
        (t_heap t2) = (Ret (), h3)"
      "\<forall>q. t_closed (view (t_heap t2 q)) \<or>
           q \<in> snd ` set [(succeeded (attempt sL), PL), (False, PR), (False, PL), (False, PR)]
         \<longrightarrow> t_closed (view (h3 q))"
    using stops_unlocked [OF ct(2)] by blast
  have cl: "t_closed (view (h3 PL))" "t_closed (view (h3 PR))" using st(2) by auto
  have "composite_branch encf es0 sL sR d e =
            \<lparr>outcome = fst (reduce (attempt sL) (attempt sR) e),
             dest = snd (reduce (attempt sL) (attempt sR) e),
             cursor = t_dec t2,
             streams = Some (t2\<lparr>t_heap := h3\<rparr>), panicVal = stored (attempt sR)\<rparr>"
    using ct(1)
    by (simp add: composite_branch_def TeeDecoder_composite [OF assms] st(1)
             split: prod.splits del: stops.simps)
  then show ?thesis using ct cl by auto
qed

lemma ReadToken_scalar:
  "t \<noteq> BeginObject \<Longrightarrow> t \<noteq> EndObject \<Longrightarrow> t \<noteq> BeginArray \<Longrightarrow> t \<noteq> EndArray \<Longrightarrow>
   ReadToken \<lparr>input = Tok t # r, stack = st\<rparr> = (Ret (Inr t), \<lparr>input = r, stack = st\<rparr>)"
  by (simp add: ReadToken_def)

lemma ReadToken_begin:
  "t = BeginObject \<or> t = BeginArray \<Longrightarrow>
   ReadToken \<lparr>input = Tok t # r, stack = st\<rparr> = (Ret (Inr t), \<lparr>input = r, stack = t # st\<rparr>)"
  by (auto simp: ReadToken_def)

lemma ReadToken_end:
  "ReadToken \<lparr>input = Tok EndObject # r, stack = BeginObject # st\<rparr> =
     (Ret (Inr EndObject), \<lparr>input = r, stack = st\<rparr>)"
  "ReadToken \<lparr>input = Tok EndArray # r, stack = BeginArray # st\<rparr> =
     (Ret (Inr EndArray), \<lparr>input = r, stack = st\<rparr>)"
  by (simp_all add: ReadToken_def)

lemma advance_add:
  "advance (m + n) d =
     (case advance m d of
        None \<Rightarrow> None
      | Some (ts, d') \<Rightarrow>
          (case advance n d' of None \<Rightarrow> None | Some (ts', d'') \<Rightarrow> Some (ts @ ts', d'')))"
  by (induction m arbitrary: d) (auto split: prod.splits res.splits sum.splits option.splits)

lemma seg_Nil: "seg []"
  by (simp add: seg_def)

lemma seg_scalar:
  assumes "t \<noteq> BeginObject" "t \<noteq> EndObject" "t \<noteq> BeginArray" "t \<noteq> EndArray"
  shows "seg [t]"
  unfolding seg_def
proof (intro allI impI)
  fix st rest m assume "m \<le> length [t]"
  then consider "m = 0" | "m = Suc 0" by (cases m) auto
  then show "\<exists>st'. advance m \<lparr>input = map Tok [t] @ rest, stack = st\<rparr> =
              Some (take m [t], \<lparr>input = map Tok (drop m [t]) @ rest, stack = st' @ st\<rparr>) \<and>
            (m = length [t] \<longrightarrow> st' = [])"
    by cases (simp_all add: ReadToken_scalar [OF assms])
qed

lemma seg_append:
  assumes a: "seg a" and b: "seg b"
  shows "seg (a @ b)"
  unfolding seg_def
proof (intro allI impI)
  fix st rest m assume m: "m \<le> length (a @ b)"
  show "\<exists>st'. advance m \<lparr>input = map Tok (a @ b) @ rest, stack = st\<rparr> =
              Some (take m (a @ b), \<lparr>input = map Tok (drop m (a @ b)) @ rest, stack = st' @ st\<rparr>) \<and>
            (m = length (a @ b) \<longrightarrow> st' = [])"
  proof (cases "m \<le> length a")
    case True
    from a [unfolded seg_def, rule_format, OF True, of "map Tok b @ rest" st]
    obtain st' where "advance m \<lparr>input = map Tok a @ map Tok b @ rest, stack = st\<rparr> =
        Some (take m a, \<lparr>input = map Tok (drop m a) @ map Tok b @ rest, stack = st' @ st\<rparr>)"
        "m = length a \<longrightarrow> st' = []" by blast
    then show ?thesis using True m by (intro exI [of _ st']) auto
  next
    case False
    then obtain k where k: "m = length a + k" "k \<le> length b" "0 < k"
      using m by (metis add_diff_inverse_nat le_add_diff_inverse length_append nat_add_left_cancel_le
          nat_le_linear not_gr_zero add.right_neutral)
    from a [unfolded seg_def, rule_format, of "length a" "map Tok b @ rest" st]
    have 1: "advance (length a) \<lparr>input = map Tok a @ map Tok b @ rest, stack = st\<rparr> =
        Some (a, \<lparr>input = map Tok b @ rest, stack = st\<rparr>)" by auto
    from b [unfolded seg_def, rule_format, OF k(2), of rest st]
    obtain st' where 2: "advance k \<lparr>input = map Tok b @ rest, stack = st\<rparr> =
        Some (take k b, \<lparr>input = map Tok (drop k b) @ rest, stack = st' @ st\<rparr>)"
        "k = length b \<longrightarrow> st' = []" by blast
    show ?thesis using 1 2 k by (intro exI [of _ st']) (auto simp: advance_add)
  qed
qed

lemma seg_concat: "(\<And>x. x \<in> set xs \<Longrightarrow> seg (f x)) \<Longrightarrow> seg (concat (map f xs))"
  by (induction xs) (auto simp: seg_Nil intro: seg_append)

lemma closed_value_seg: "closed_value ts \<Longrightarrow> seg ts"
  unfolding closed_value_def seg_def by blast

lemma seg_bracket:
  assumes s: "seg ts" and be: "(b, e) = (BeginObject, EndObject) \<or> (b, e) = (BeginArray, EndArray)"
  shows "closed_value (b # ts @ [e])"
  unfolding closed_value_def
proof (intro allI impI)
  fix st rest m assume m: "m \<le> length (b # ts @ [e])"
  let ?d = "\<lparr>input = map Tok (b # ts @ [e]) @ rest, stack = st\<rparr>"
  have rb: "ReadToken ?d = (Ret (Inr b), \<lparr>input = map Tok ts @ Tok e # rest, stack = b # st\<rparr>)"
    using be by (auto simp: ReadToken_begin)
  have re: "ReadToken \<lparr>input = Tok e # rest, stack = b # st\<rparr> = (Ret (Inr e), \<lparr>input = rest, stack = st\<rparr>)"
    using be by (auto simp: ReadToken_end)
  consider "m = 0" | j where "m = Suc j" "j \<le> length ts" | "m = Suc (length ts + 1)"
    using m by (cases m) (auto simp: le_Suc_eq)
  then show "\<exists>st'. advance m ?d =
              Some (take m (b # ts @ [e]), \<lparr>input = map Tok (drop m (b # ts @ [e])) @ rest, stack = st' @ st\<rparr>) \<and>
            (st' = [] \<longleftrightarrow> m = 0 \<or> m = length (b # ts @ [e]))"
  proof cases
    case 1
    then show ?thesis by simp
  next
    case (2 j)
    from s [unfolded seg_def, rule_format, OF 2(2), of "Tok e # rest" "b # st"]
    obtain st' where st': "advance j \<lparr>input = map Tok ts @ Tok e # rest, stack = b # st\<rparr> =
        Some (take j ts, \<lparr>input = map Tok (drop j ts) @ Tok e # rest, stack = st' @ b # st\<rparr>)"
      by blast
    show ?thesis using 2 st' rb by (intro exI [of _ "st' @ [b]"]) auto
  next
    case 3
    from s [unfolded seg_def, rule_format, of "length ts" "Tok e # rest" "b # st"]
    have full: "advance (length ts) \<lparr>input = map Tok ts @ Tok e # rest, stack = b # st\<rparr> =
        Some (ts, \<lparr>input = Tok e # rest, stack = b # st\<rparr>)" by auto
    have e1: "advance (Suc 0) \<lparr>input = Tok e # rest, stack = b # st\<rparr> =
        Some ([e], \<lparr>input = rest, stack = st\<rparr>)"
      using re by simp
    have a2: "advance (length ts + Suc 0) \<lparr>input = map Tok ts @ Tok e # rest, stack = b # st\<rparr> =
        Some (ts @ [e], \<lparr>input = rest, stack = st\<rparr>)"
      by (simp only: advance_add full e1 option.case prod.case)
    have a0: "advance (Suc 0) ?d =
        Some ([b], \<lparr>input = map Tok ts @ Tok e # rest, stack = b # st\<rparr>)"
      using rb by simp
    have "advance (Suc 0 + (length ts + Suc 0)) ?d =
        Some ([b] @ (ts @ [e]), \<lparr>input = rest, stack = st\<rparr>)"
      by (subst advance_add) (simp only: a0 a2 option.case prod.case)
    moreover have "m = Suc 0 + (length ts + Suc 0)" using 3 by simp
    ultimately show ?thesis by (intro exI [of _ "[]"]) (simp del: advance.simps)
  qed
qed

lemma seg_tokens: "seg (tokens v)"
proof (induction v)
  case (JArray vs)
  have "seg (concat (map tokens vs))" using JArray by (intro seg_concat) auto
  then show ?case using seg_bracket [of _ BeginArray EndArray] closed_value_seg by auto
next
  case (JObject ms)
  have "seg (concat (map (\<lambda>m. TokString (fst m) # tokens (snd m)) ms))"
  proof (intro seg_concat)
    fix m assume "m \<in> set ms"
    then have "seg (tokens (snd m))" using JObject by (cases m) (auto simp: snds.simps)
    then have "seg ([TokString (fst m)] @ tokens (snd m))"
      by (intro seg_append seg_scalar) auto
    then show "seg (TokString (fst m) # tokens (snd m))" by simp
  qed
  then show ?case using seg_bracket [of _ BeginObject EndObject] closed_value_seg by auto
qed (auto intro: seg_scalar)

lemma closed_value_tokens: "is_composite v \<Longrightarrow> closed_value (tokens v)"
proof (cases v)
  case (JArray vs)
  have "seg (concat (map tokens vs))" by (intro seg_concat seg_tokens)
  then show ?thesis using JArray seg_bracket [of _ BeginArray EndArray] by auto
next
  case (JObject ms)
  have "seg (concat (map (\<lambda>m. TokString (fst m) # tokens (snd m)) ms))"
  proof (intro seg_concat)
    fix m
    have "seg ([TokString (fst m)] @ tokens (snd m))"
      by (intro seg_append seg_scalar seg_tokens) auto
    then show "seg (TokString (fst m) # tokens (snd m))" by simp
  qed
  then show ?thesis using JObject seg_bracket [of _ BeginObject EndObject] by auto
qed (auto simp: is_composite_def)

lemma ReadToken_fail:
  "ReadToken d = (r, d') \<Longrightarrow> \<forall>t. r \<noteq> Ret (Inr t) \<Longrightarrow> d' = d"
  by (auto simp: ReadToken_def split: list.splits src.splits if_splits token.splits)

lemma copy_loop_iterate:
  assumes "0 < n"
    and "\<forall>m ts d'. 0 < m \<and> m < n \<and> advance m (t_dec s) = Some (ts, d') \<longrightarrow> StackDepth d' \<noteq> depth"
    and "\<forall>ts d'. advance n (t_dec s) = Some (ts, d') \<longrightarrow> StackDepth d' = depth"
  shows "copy_loop encf depth s = iterate encf n s"
  using assms
proof (induction n arbitrary: s)
  case 0
  then show ?case by simp
next
  case (Suc k)
  obtain r d1 where rt: "ReadToken (t_dec s) = (r, d1)" by (cases "ReadToken (t_dec s)") auto
  show ?case
  proof (cases "\<exists>tok. r = Ret (Inr tok)")
    case False
    then show ?thesis using rt
      by (subst copy_loop.simps) (auto split: res.splits sum.splits)
  next
    case True
    then obtain tok where r: "r = Ret (Inr tok)" by blast
    obtain o1 s1 where wt: "WriteToken encf tok (s\<lparr>t_dec := d1\<rparr>) = (o1, s1)"
      by (cases "WriteToken encf tok (s\<lparr>t_dec := d1\<rparr>)") auto
    have d1: "t_dec s1 = d1" using WriteToken_dec [OF wt] by simp
    show ?thesis
    proof (cases "o1 = Ret None")
      case False
      then show ?thesis using rt r wt
        by (subst copy_loop.simps) (auto split: res.splits option.splits)
    next
      case True
      show ?thesis
      proof (cases k)
        case 0
        have "advance (Suc 0) (t_dec s) = Some ([tok], d1)" using rt r by simp
        then have "StackDepth d1 = depth" using Suc.prems(3) 0 by simp
        then show ?thesis using rt r wt True d1 0
          by (subst copy_loop.simps) simp
      next
        case (Suc j)
        have "advance (Suc 0) (t_dec s) = Some ([tok], d1)" using rt r by simp
        then have ne: "StackDepth d1 \<noteq> depth" using Suc.prems(2) Suc
          by (metis One_nat_def Suc_less_eq zero_less_Suc zero_less_one)
        have step: "copy_loop encf depth s = copy_loop encf depth s1"
          using rt r wt True d1 ne by (subst copy_loop.simps) simp
        have a: "\<And>m. advance (Suc m) (t_dec s) =
            (case advance m d1 of Some (ts, d'') \<Rightarrow> Some (tok # ts, d'') | None \<Rightarrow> None)"
          using rt r by simp
        have "copy_loop encf depth s1 = iterate encf k s1"
        proof (rule Suc.IH)
          show "0 < k" using Suc by simp
          show "\<forall>m ts d'. 0 < m \<and> m < k \<and> advance m (t_dec s1) = Some (ts, d') \<longrightarrow>
                  StackDepth d' \<noteq> depth"
          proof (intro allI impI)
            fix m ts d' assume h: "0 < m \<and> m < k \<and> advance m (t_dec s1) = Some (ts, d')"
            then have "advance (Suc m) (t_dec s) = Some (tok # ts, d')" using a d1 by simp
            then show "StackDepth d' \<noteq> depth" using Suc.prems(2) h by blast
          qed
          show "\<forall>ts d'. advance k (t_dec s1) = Some (ts, d') \<longrightarrow> StackDepth d' = depth"
          proof (intro allI impI)
            fix ts d' assume "advance k (t_dec s1) = Some (ts, d')"
            then have "advance (Suc k) (t_dec s) = Some (tok # ts, d')" using a d1 by simp
            then show "StackDepth d' = depth" using Suc.prems(3) by blast
          qed
        qed
        then show ?thesis using step rt r wt True by simp
      qed
    qed
  qed
qed

lemma iterate_cursor:
  "iterate encf n s = (out, s') \<Longrightarrow>
   \<exists>m ts. m \<le> n \<and> advance m (t_dec s) = Some (ts, t_dec s') \<and> (out = Ret None \<longrightarrow> m = n)"
proof (induction n arbitrary: s)
  case 0
  then show ?case by auto
next
  case (Suc k)
  obtain r d1 where rt: "ReadToken (t_dec s) = (r, d1)" by (cases "ReadToken (t_dec s)") auto
  show ?case
  proof (cases "\<exists>tok. r = Ret (Inr tok)")
    case False
    then have "d1 = t_dec s" using ReadToken_fail [OF rt] by blast
    moreover have "out \<noteq> Ret None" "t_dec s' = d1"
      using Suc.prems rt False by (auto split: res.splits sum.splits)
    ultimately show ?thesis by (intro exI [of _ 0]) simp
  next
    case True
    then obtain tok where r: "r = Ret (Inr tok)" by blast
    obtain o1 s1 where wt: "WriteToken encf tok (s\<lparr>t_dec := d1\<rparr>) = (o1, s1)"
      by (cases "WriteToken encf tok (s\<lparr>t_dec := d1\<rparr>)") auto
    have d1: "t_dec s1 = d1" using WriteToken_dec [OF wt] by simp
    show ?thesis
    proof (cases "o1 = Ret None")
      case False
      then have "out \<noteq> Ret None" "s' = s1"
        using Suc.prems rt r wt by (auto split: res.splits option.splits)
      moreover have "advance (Suc 0) (t_dec s) = Some ([tok], d1)" using rt r by simp
      ultimately show ?thesis using d1 by (intro exI [of _ "Suc 0"]) auto
    next
      case True
      then have "iterate encf k s1 = (out, s')" using Suc.prems rt r wt by simp
      from Suc.IH [OF this] obtain m ts where m: "m \<le> k"
          "advance m (t_dec s1) = Some (ts, t_dec s')" "out = Ret None \<longrightarrow> m = k" by blast
      have "advance (Suc m) (t_dec s) = Some (tok # ts, t_dec s')" using rt r m(2) d1 by simp
      then show ?thesis using m by (intro exI [of _ "Suc m"]) auto
    qed
  qed
qed

lemma pipe_Write_accepting:
  "\<not> pipe_done (t_pipe (view ep)) \<Longrightarrow> drain ep = None \<Longrightarrow>
   pipe_Write ep b = (Ret (length b, None), ep\<lparr>got := got ep @ b\<rparr>)"
  by (simp add: pipe_Write_def)

lemma pipe_Write_harmless:
  assumes "harmless ep"
  shows "\<exists>n ep'. (pipe_Write ep b = (Ret (n, None), ep') \<or>
                  pipe_Write ep b = (Ret (n, Some ErrFailedEarly), ep')) \<and> harmless ep'"
  using assms
  by (auto simp: harmless_def pipe_Write_def pipe_done_def writeCloseError_def
        teeReader_Stop_def closeRead_def Let_def split: option.splits)

lemma forwards_PL:
  "forwards PL w h \<longleftrightarrow>
     maskedErr w = ErrFailedEarly \<and> wl w = Some PL \<and> \<not> pipe_done (t_pipe (view (h PL))) \<and>
     drain (h PL) = None \<and> (wr w = None \<or> wr w = Some PR \<and> harmless (h PR))"
  by (auto simp: forwards_def)

lemma forwards_PR:
  "forwards PR w h \<longleftrightarrow>
     maskedErr w = ErrFailedEarly \<and> wr w = Some PR \<and> \<not> pipe_done (t_pipe (view (h PR))) \<and>
     drain (h PR) = None \<and> (wl w = None \<or> wl w = Some PL \<and> harmless (h PL))"
  by (auto simp: forwards_def)

lemma Write_forwards_PL:
  assumes "forwards PL w h"
  shows "\<exists>w' h'. multiPipeWriter_Write w h b = (Ret (length b, None), w', h') \<and>
           forwards PL w' h' \<and> got (h' PL) = got (h PL) @ b"
proof -
  from assms have f: "maskedErr w = ErrFailedEarly" "wl w = Some PL"
      "\<not> pipe_done (t_pipe (view (h PL)))" "drain (h PL) = None"
      "wr w = None \<or> wr w = Some PR \<and> harmless (h PR)"
    by (auto simp: forwards_PL)
  let ?h1 = "h(PL := (h PL)\<lparr>got := got (h PL) @ b\<rparr>)"
  have l: "write_left w h b = (Inr (length b), w, ?h1)"
    using f by (simp add: write_left_def pipe_Write_accepting)
  show ?thesis
  proof (cases "wr w")
    case None
    then have "write_right w ?h1 b (length b) = (Inr (length b), w, ?h1)"
      by (simp add: write_right_def)
    then show ?thesis using l f None
      by (simp add: multiPipeWriter_Write_def forwards_PL)
  next
    case (Some q)
    then have q: "q = PR" "harmless (h PR)" using f(5) by auto
    obtain n ep' where pw: "pipe_Write (h PR) b = (Ret (n, None), ep') \<or>
        pipe_Write (h PR) b = (Ret (n, Some ErrFailedEarly), ep')" "harmless ep'"
      using pipe_Write_harmless [OF q(2)] by blast
    from pw(1) show ?thesis
    proof
      assume ok: "pipe_Write (h PR) b = (Ret (n, None), ep')"
      then have n: "n = length b"
        by (auto simp: pipe_Write_def split: if_splits option.splits prod.splits res.splits)
      have "write_right w ?h1 b (length b) = (Inr n, w, ?h1(PR := ep'))"
        using Some q ok by (simp add: write_right_def)
      then show ?thesis using l f Some q pw(2) n
        by (simp add: multiPipeWriter_Write_def forwards_PL)
    next
      assume bad: "pipe_Write (h PR) b = (Ret (n, Some ErrFailedEarly), ep')"
      have "write_right w ?h1 b (length b) = (Inr (length b), w\<lparr>wr := None\<rparr>, ?h1(PR := ep'))"
        using Some q bad f(1) by (simp add: write_right_def)
      then show ?thesis using l f
        by (simp add: multiPipeWriter_Write_def forwards_PL)
    qed
  qed
qed

lemma Write_forwards_PR:
  assumes "forwards PR w h"
  shows "\<exists>w' h'. multiPipeWriter_Write w h b = (Ret (length b, None), w', h') \<and>
           forwards PR w' h' \<and> got (h' PR) = got (h PR) @ b"
proof -
  from assms have f: "maskedErr w = ErrFailedEarly" "wr w = Some PR"
      "\<not> pipe_done (t_pipe (view (h PR)))" "drain (h PR) = None"
      "wl w = None \<or> wl w = Some PL \<and> harmless (h PL)"
    by (auto simp: forwards_PR)
  have r: "\<And>w1 h1 n. wr w1 = Some PR \<Longrightarrow> h1 PR = h PR \<Longrightarrow>
      write_right w1 h1 b n = (Inr (length b), w1, h1(PR := (h PR)\<lparr>got := got (h PR) @ b\<rparr>))"
    using f by (simp add: write_right_def pipe_Write_accepting)
  show ?thesis
  proof (cases "wl w")
    case None
    then have "write_left w h b = (Inr 0, w, h)" by (simp add: write_left_def)
    then show ?thesis using r [of w h 0] f None
      by (simp add: multiPipeWriter_Write_def forwards_PR)
  next
    case (Some p)
    then have p: "p = PL" "harmless (h PL)" using f(5) by auto
    obtain n ep' where pw: "pipe_Write (h PL) b = (Ret (n, None), ep') \<or>
        pipe_Write (h PL) b = (Ret (n, Some ErrFailedEarly), ep')" "harmless ep'"
      using pipe_Write_harmless [OF p(2)] by blast
    from pw(1) show ?thesis
    proof
      assume ok: "pipe_Write (h PL) b = (Ret (n, None), ep')"
      have "write_left w h b = (Inr n, w, h(PL := ep'))"
        using Some p ok by (simp add: write_left_def)
      then show ?thesis using r [of w "h(PL := ep')" n] f Some p pw(2)
        by (simp add: multiPipeWriter_Write_def forwards_PR)
    next
      assume bad: "pipe_Write (h PL) b = (Ret (n, Some ErrFailedEarly), ep')"
      have "write_left w h b = (Inr 0, w\<lparr>wl := None\<rparr>, h(PL := ep'))"
        using Some p bad f(1) by (simp add: write_left_def)
      then show ?thesis using r [of "w\<lparr>wl := None\<rparr>" "h(PL := ep')" 0] f
        by (simp add: multiPipeWriter_Write_def forwards_PR)
    qed
  qed
qed

lemma Write_forwards:
  "forwards p w h \<Longrightarrow>
   \<exists>w' h'. multiPipeWriter_Write w h b = (Ret (length b, None), w', h') \<and>
           forwards p w' h' \<and> got (h' p) = got (h p) @ b"
  by (cases p) (auto intro: Write_forwards_PL Write_forwards_PR)

lemma WriteToken_forwards:
  assumes "forwards p (t_mw s) (t_heap s)"
  shows "\<exists>s'. WriteToken encf tok s = (Ret None, s') \<and> forwards p (t_mw s') (t_heap s') \<and>
           t_enc s' = fst (encf (t_enc s) tok) \<and>
           got (t_heap s' p) = got (t_heap s p) @ flushed encf (t_enc s) [tok]"
proof (cases "encf (t_enc s) tok")
  case (Pair es fl)
  show ?thesis
  proof (cases fl)
    case None
    then show ?thesis using assms Pair by (simp add: WriteToken_def)
  next
    case (Some b)
    obtain w' h' where "multiPipeWriter_Write (t_mw s) (t_heap s) b = (Ret (length b, None), w', h')"
        "forwards p w' h'" "got (h' p) = got (t_heap s p) @ b"
      using Write_forwards [OF assms] by blast
    then show ?thesis using Pair Some by (simp add: WriteToken_def)
  qed
qed

lemma flushed_append:
  "flushed encf es (a @ b) = flushed encf es a @ flushed encf (fold (\<lambda>t e. fst (encf e t)) a es) b"
  by (induction a arbitrary: es) (auto split: prod.splits option.splits)

lemma iterate_forwards:
  "advance n (t_dec s) = Some (ts, d') \<Longrightarrow> forwards p (t_mw s) (t_heap s) \<Longrightarrow>
   \<exists>s'. iterate encf n s = (Ret None, s') \<and> forwards p (t_mw s') (t_heap s') \<and> t_dec s' = d' \<and>
        got (t_heap s' p) = got (t_heap s p) @ flushed encf (t_enc s) ts"
proof (induction n arbitrary: s ts)
  case 0
  then show ?case by simp
next
  case (Suc k)
  from Suc.prems(1) obtain tok d1 ts1 where rt: "ReadToken (t_dec s) = (Ret (Inr tok), d1)"
      and adv: "advance k d1 = Some (ts1, d')" and ts: "ts = tok # ts1"
    by (auto split: prod.splits res.splits sum.splits option.splits)
  have "forwards p (t_mw (s\<lparr>t_dec := d1\<rparr>)) (t_heap (s\<lparr>t_dec := d1\<rparr>))"
    using Suc.prems(2) by simp
  from WriteToken_forwards [OF this, of encf tok]
  obtain s1 where s1: "WriteToken encf tok (s\<lparr>t_dec := d1\<rparr>) = (Ret None, s1)"
      "forwards p (t_mw s1) (t_heap s1)" "t_enc s1 = fst (encf (t_enc s) tok)"
      "got (t_heap s1 p) = got (t_heap s p) @ flushed encf (t_enc s) [tok]"
    by auto
  have d1: "t_dec s1 = d1" using WriteToken_dec [OF s1(1)] by simp
  from Suc.IH [of s1 ts1] adv d1 s1(2)
  obtain s' where s': "iterate encf k s1 = (Ret None, s')" "forwards p (t_mw s') (t_heap s')"
      "t_dec s' = d'" "got (t_heap s' p) = got (t_heap s1 p) @ flushed encf (t_enc s1) ts1"
    by auto
  have "flushed encf (t_enc s) (tok # ts1) =
        flushed encf (t_enc s) [tok] @ flushed encf (t_enc s1) ts1"
    using s1(3) by (auto split: prod.splits option.splits)
  then show ?case using rt s1 s' ts by simp
qed

section \<open>Properties of the struct\<close>

text \<open>
  Claim C9. Marshaling is transparent: \<open>Left l\<close> is written exactly as \<open>l\<close> alone is, and
  \<open>Right r\<close> exactly as \<open>r\<close> alone is, for every encoder state; the encoder sees nothing
  of the struct but the held value.
\<close>

theorem marshal_transparent:
  "MarshalJSONTo encL encR (Left l) enc = encL enc l \<and>
   MarshalJSONTo encL encR (Right r) enc = encR enc r"
  by (simp add: MarshalJSONTo_def Left_def Right_def IsLeft_def Left_of_def Right_of_def)

text \<open>
  Claim C10. The zero value of the struct is a Left holding the zero value of \<open>L\<close>:
  \<open>IsLeft\<close> holds, \<open>IsRight\<close> does not, the left accessor gives the zero value, and the
  struct equals the one the constructor \<open>Left\<close> builds from the zero value.
\<close>

theorem zero_is_zero_left:
  "IsLeft (zero_Either :: ('l::default, 'r::default) Either) \<and>
   \<not> IsRight (zero_Either :: ('l, 'r) Either) \<and>
   Left_of (zero_Either :: ('l, 'r) Either) = default \<and>
   (zero_Either :: ('l, 'r) Either) = Left default"
  by (simp add: zero_Either_def IsLeft_def IsRight_def Left_of_def Left_def)

end
